theory Spec2Isabelle
  imports Main "HOL-Library.AList"
begin

section \<open>JavaScript values\<close>

text \<open>
  The relay and the client pass untyped JavaScript values around (\<open>params: any\<close>, a parsed
  socket frame, a JSON-RPC result). They are modelled by one datatype. Numbers are the
  integers: every number the modelled code inspects is a JSON-RPC id or a byte count.
\<close>

datatype json =
    JUndefined
  | JNull
  | JBool bool
  | JNum int
  | JStr string
  | JArr "json list"
  | JObj "(string \<times> json) list"

text \<open>JavaScript truthiness, as \<open>||\<close> and \<open>!\<close> read a value.\<close>

fun truthy :: "json \<Rightarrow> bool" where
  "truthy JUndefined = False"
| "truthy JNull = False"
| "truthy (JBool b) = b"
| "truthy (JNum n) = (n \<noteq> 0)"
| "truthy (JStr s) = (s \<noteq> [])"
| "truthy (JArr xs) = True"
| "truthy (JObj fs) = True"

text \<open>The expression \<open>v || null\<close>.\<close>

definition or_null :: "json \<Rightarrow> json" where
  "or_null v = (if truthy v then v else JNull)"

text \<open>\<open>typeof v === "string"\<close>.\<close>

fun is_string :: "json \<Rightarrow> bool" where
  "is_string (JStr s) = True"
| "is_string v = False"

section \<open>The JSON-RPC history (class JsonRpcHistory)\<close>

subsection \<open>Data\<close>

text \<open>
  A \<open>JsonRpcRequest\<close> \<open>{id, jsonrpc, method, params}\<close> and a \<open>JsonRpcResponse\<close>, which is
  either a \<open>JsonRpcResult\<close> \<open>{id, jsonrpc, result}\<close> or a \<open>JsonRpcError\<close>
  \<open>{id, jsonrpc, error}\<close>. \<open>isJsonRpcError\<close> of the jsonrpc-utils package tests for the
  \<open>error\<close> member.
\<close>

record jsonrpc_request =
  req_id :: int
  req_method :: string
  req_params :: json

datatype jsonrpc_response =
    JsonRpcResult int json
  | JsonRpcError int json

fun response_id :: "jsonrpc_response \<Rightarrow> int" where
  "response_id (JsonRpcResult i v) = i"
| "response_id (JsonRpcError i e) = i"

fun isJsonRpcError :: "jsonrpc_response \<Rightarrow> bool" where
  "isJsonRpcError (JsonRpcResult i v) = False"
| "isJsonRpcError (JsonRpcError i e) = True"

text \<open>The members \<open>response.result\<close> and \<open>response.error\<close>; a missing member reads \<open>undefined\<close>.\<close>

fun response_result :: "jsonrpc_response \<Rightarrow> json" where
  "response_result (JsonRpcResult i v) = v"
| "response_result (JsonRpcError i e) = JUndefined"

fun response_error :: "jsonrpc_response \<Rightarrow> json" where
  "response_error (JsonRpcResult i v) = JUndefined"
| "response_error (JsonRpcError i e) = e"

text \<open>
  A \<open>JsonRpcRecord\<close> \<open>{id, topic, request: {method, params}, chainId?, response?}\<close>; the
  response, when present, is \<open>{result}\<close> or \<open>{error}\<close>.
\<close>

record record_request =
  rq_method :: string
  rq_params :: json

datatype record_response =
    RespResult json
  | RespError json

record jsonrpc_record =
  rec_id :: int
  rec_topic :: string
  rec_request :: record_request
  rec_chainId :: "string option"
  rec_response :: "record_response option"

text \<open>
  The errors the class raises (\<open>ERROR.RECORD_ALREADY_EXISTS\<close> and so on, each formatted
  with the id it is about), and a rejected read of the storage.
\<close>

datatype history_error =
    RECORD_ALREADY_EXISTS int
  | NO_MATCHING_ID int
  | MISMATCHED_TOPIC int
  | RESTORE_WILL_OVERRIDE
  | STORAGE_FAILURE

text \<open>The events of \<open>HISTORY_EVENTS\<close> the class emits, in the order of emission.\<close>

datatype history_event =
    Created jsonrpc_record
  | Updated jsonrpc_record
  | Deleted jsonrpc_record
  | Enabled
  | Disabled

text \<open>
  The state of one \<open>JsonRpcHistory\<close>. \<open>records\<close> is the \<open>Map<number, JsonRpcRecord>\<close>, kept
  as an association list in insertion order (the order a JavaScript \<open>Map\<close> iterates in):
  \<open>Map.set\<close> is \<open>AList.update\<close> (in place for a key that is there, at the end for a new
  one), \<open>Map.delete\<close> is \<open>AList.delete\<close>, \<open>Map.get\<close> is \<open>map_of\<close>. \<open>cached\<close> is the private
  array of the same name. \<open>events\<close> lists what was emitted, \<open>written\<close> the snapshots
  handed to \<open>storage.setItem\<close> by \<open>persist\<close>.
\<close>

record history =
  records :: "(int \<times> jsonrpc_record) list"
  cached :: "jsonrpc_record list"
  events :: "history_event list"
  written :: "jsonrpc_record list list"

text \<open>The state the constructor leaves: no record, nothing cached.\<close>

definition new_history :: history where
  "new_history = \<lparr>records = [], cached = [], events = [], written = []\<rparr>"

text \<open>
  The outcome of an asynchronous call: the promise is pending at the restoration gate
  (\<open>Suspended\<close>), rejected with an error (\<open>Threw\<close>) or fulfilled (\<open>Returned\<close>).
\<close>

datatype 'a outcome =
    Suspended
  | Threw history_error
  | Returned 'a

text \<open>
  The representation invariant of \<open>records\<close>: keys are unique, as in any \<open>Map\<close>, and every
  record is stored under its own id, as every \<open>records.set(record.id, record)\<close> of the
  class does.
\<close>

definition history_inv :: "history \<Rightarrow> bool" where
  "history_inv h =
     (distinct (map fst (records h)) \<and> list_all (\<lambda>(k, r). rec_id r = k) (records h))"

subsection \<open>Operations\<close>

text \<open>
  Every public operation starts with \<open>await this.isEnabled()\<close>: a closed gate gives
  \<open>Suspended\<close> and the state as it was, an open gate lets the body run on the state the
  gate is read in. After the gate \<open>set\<close> and \<open>delete\<close> have no further await, and \<open>get\<close>
  reads the state once, in \<open>getRecord\<close>: each is one step. \<open>update\<close> awaits \<open>getRecord\<close>
  between its test \<open>records.has\<close>, the read of the record and the write, so other calls on
  the history can run in between: it is modelled in three stretches, and \<open>history_update\<close>
  is their run with nothing in between.
\<close>

text \<open>The getter \<open>values\<close>: \<open>Array.from(this.records.values())\<close>.\<close>

definition history_values :: "history \<Rightarrow> jsonrpc_record list" where
  "history_values h = map snd (records h)"

text \<open>\<open>this.records.has(id)\<close>.\<close>

definition records_has :: "history \<Rightarrow> int \<Rightarrow> bool" where
  "records_has h i = (map_of (records h) i \<noteq> None)"

text \<open>
  \<open>persist\<close> hands the current values to \<open>storage.setItem\<close>. (The \<open>sync\<close> event it emits
  once the write has completed is outside the synchronous step and is not listed.)
\<close>

definition persist :: "history \<Rightarrow> history" where
  "persist h = h\<lparr>written := written h @ [history_values h]\<rparr>"

text \<open>
  \<open>this.events.emit(event, record)\<close>: the event reaches the observers, and the listeners
  of \<open>registerEventListeners\<close> call \<open>persist\<close> on \<open>created\<close>, \<open>updated\<close> and \<open>deleted\<close>.
\<close>

fun emit :: "history \<Rightarrow> history_event \<Rightarrow> history" where
  "emit h (Created r) = persist (h\<lparr>events := events h @ [Created r]\<rparr>)"
| "emit h (Updated r) = persist (h\<lparr>events := events h @ [Updated r]\<rparr>)"
| "emit h (Deleted r) = persist (h\<lparr>events := events h @ [Deleted r]\<rparr>)"
| "emit h Enabled = h\<lparr>events := events h @ [Enabled]\<rparr>"
| "emit h Disabled = h\<lparr>events := events h @ [Disabled]\<rparr>"

text \<open>
  \<open>isEnabled\<close>: the promise resolves at once when nothing is cached; otherwise it stays
  pending until the next \<open>enabled\<close> event. \<open>True\<close> is "resolves at once".
\<close>

definition isEnabled :: "history \<Rightarrow> bool" where
  "isEnabled h = (cached h = [])"

definition enable :: "history \<Rightarrow> history" where
  "enable h = emit (h\<lparr>cached := []\<rparr>) Enabled"

definition disable :: "history \<Rightarrow> history" where
  "disable h = emit (if cached h = [] then h\<lparr>cached := history_values h\<rparr> else h) Disabled"

definition getRecord :: "history \<Rightarrow> int \<Rightarrow> jsonrpc_record outcome" where
  "getRecord h i =
     (if \<not> isEnabled h then Suspended
      else case map_of (records h) i of
             None \<Rightarrow> Threw (NO_MATCHING_ID i)
           | Some r \<Rightarrow> Returned r)"

definition history_set ::
  "history \<Rightarrow> string \<Rightarrow> jsonrpc_request \<Rightarrow> string option \<Rightarrow> unit outcome \<times> history" where
  "history_set h topic request chainId =
     (if \<not> isEnabled h then (Suspended, h)
      else if records_has h (req_id request)
        then (Threw (RECORD_ALREADY_EXISTS (req_id request)), h)
      else
        let r = \<lparr>rec_id = req_id request, rec_topic = topic,
                 rec_request = \<lparr>rq_method = req_method request,
                                 rq_params = or_null (req_params request)\<rparr>,
                 rec_chainId = chainId, rec_response = None\<rparr>
        in (Returned (), emit (h\<lparr>records := AList.update (rec_id r) r (records h)\<rparr>) (Created r)))"

text \<open>
  \<open>update\<close>, first stretch: the gate, the test \<open>records.has(response.id)\<close> and the call of
  \<open>getRecord\<close>, which reads its own gate in the same state and then yields. The stretch
  changes nothing; it ends at the gate, with the silent return, or awaiting the record.
\<close>

datatype update_begun =
    UpdateAtGate
  | UpdateDone
  | UpdateAwaiting

definition update_begin :: "history \<Rightarrow> jsonrpc_response \<Rightarrow> update_begun" where
  "update_begin h response =
     (if \<not> isEnabled h then UpdateAtGate
      else if \<not> records_has h (response_id response) then UpdateDone
      else UpdateAwaiting)"

text \<open>
  Second stretch, the rest of \<open>getRecord\<close>, on the state the history has by then:
  \<open>records.get(id)\<close>, and the throw when there is no record, which rejects \<open>update\<close>.
\<close>

definition update_read :: "history \<Rightarrow> jsonrpc_response \<Rightarrow> history_error + jsonrpc_record" where
  "update_read h response =
     (case map_of (records h) (response_id response) of
        None \<Rightarrow> Inl (NO_MATCHING_ID (response_id response))
      | Some r \<Rightarrow> Inr r)"

text \<open>
  Third stretch, on the state the history has by then and the record object \<open>r\<close> that
  \<open>getRecord\<close> returned, as it is by then: the two tests on it, and the write. The write
  changes the object in place, so the entry under \<open>response.id\<close> shows the change, and
  \<open>records.set(record.id, record)\<close> puts the object under its own id, back into the map
  if it has left it. With every record stored under its own id (\<open>history_inv\<close>) the two
  name the same entry.
\<close>

definition update_write ::
  "history \<Rightarrow> string \<Rightarrow> jsonrpc_response \<Rightarrow> jsonrpc_record \<Rightarrow> unit outcome \<times> history" where
  "update_write h topic response r =
     (if rec_topic r \<noteq> topic then (Returned (), h)
      else if rec_response r \<noteq> None then (Returned (), h)
      else
        let r' = r\<lparr>rec_response :=
                    Some (if isJsonRpcError response
                          then RespError (response_error response)
                          else RespResult (response_result response))\<rparr>;
            rs = AList.update (rec_id r') r'
                   (AList.update (response_id response) r' (records h))
        in (Returned (), emit (h\<lparr>records := rs\<rparr>) (Updated r')))"

text \<open>
  \<open>update\<close> with exclusive access to the history: the three stretches on one state, no
  other call running between them.
\<close>

definition history_update ::
  "history \<Rightarrow> string \<Rightarrow> jsonrpc_response \<Rightarrow> unit outcome \<times> history" where
  "history_update h topic response =
     (case update_begin h response of
        UpdateAtGate \<Rightarrow> (Suspended, h)
      | UpdateDone \<Rightarrow> (Returned (), h)
      | UpdateAwaiting \<Rightarrow>
          (case update_read h response of
             Inl e \<Rightarrow> (Threw e, h)
           | Inr r \<Rightarrow> update_write h topic response r))"

text \<open>A sequence of \<open>update\<close> calls, each run to its end before the next.\<close>

fun history_updates :: "history \<Rightarrow> (string \<times> jsonrpc_response) list \<Rightarrow> history" where
  "history_updates h [] = h"
| "history_updates h ((topic, response) # calls) =
     history_updates (snd (history_update h topic response)) calls"

definition history_get ::
  "history \<Rightarrow> string \<Rightarrow> int \<Rightarrow> jsonrpc_record outcome \<times> history" where
  "history_get h topic i =
     (if \<not> isEnabled h then (Suspended, h)
      else case getRecord h i of
             Suspended \<Rightarrow> (Suspended, h)
           | Threw e \<Rightarrow> (Threw e, h)
           | Returned r \<Rightarrow>
               if rec_topic r \<noteq> topic then (Threw (MISMATCHED_TOPIC i), h)
               else (Returned r, h))"

text \<open>
  The body of the \<open>forEach\<close> of \<open>delete\<close>, for one record of the array \<open>this.values\<close>
  taken when the loop starts.
\<close>

definition delete_step :: "string \<Rightarrow> int option \<Rightarrow> history \<Rightarrow> jsonrpc_record \<Rightarrow> history" where
  "delete_step topic i h r =
     (if rec_topic r = topic then
        (if i \<noteq> None \<and> Some (rec_id r) \<noteq> i then h
         else emit (h\<lparr>records := AList.delete (rec_id r) (records h)\<rparr>) (Deleted r))
      else h)"

fun delete_loop :: "string \<Rightarrow> int option \<Rightarrow> history \<Rightarrow> jsonrpc_record list \<Rightarrow> history" where
  "delete_loop topic i h [] = h"
| "delete_loop topic i h (r # rs) = delete_loop topic i (delete_step topic i h r) rs"

definition history_delete ::
  "history \<Rightarrow> string \<Rightarrow> int option \<Rightarrow> unit outcome \<times> history" where
  "history_delete h topic i =
     (if \<not> isEnabled h then (Suspended, h)
      else (Returned (), delete_loop topic i h (history_values h)))"

subsection \<open>Restoration\<close>

text \<open>What \<open>storage.getItem\<close> settles with: a rejection, \<open>undefined\<close>, or the stored array.\<close>

datatype get_item_result =
    GetRejected
  | GetUndefined
  | GetItem "jsonrpc_record list"

text \<open>
  \<open>restore\<close> runs in three stretches. It first awaits \<open>storage.getItem\<close>. Once that has
  settled, \<open>restore_begin\<close> is the synchronous stretch up to \<open>await Promise.all(...)\<close>:
  the early returns, the throw, and otherwise \<open>this.cached = persisted\<close> with every
  \<open>records.set(record.id, record)\<close> (the callbacks of \<open>map\<close> have no await and run at
  once); its outcome \<open>Suspended\<close> is that await. The last stretch is \<open>enable\<close>.
\<close>

definition restore_begin :: "history \<Rightarrow> get_item_result \<Rightarrow> unit outcome \<times> history" where
  "restore_begin h got =
     (case got of
        GetRejected \<Rightarrow> (Threw STORAGE_FAILURE, h)
      | GetUndefined \<Rightarrow> (Returned (), h)
      | GetItem persisted \<Rightarrow>
          if persisted = [] then (Returned (), h)
          else if records h \<noteq> [] then (Threw RESTORE_WILL_OVERRIDE, h)
          else (Suspended,
                h\<lparr>cached := persisted,
                  records := fold (\<lambda>r rs. AList.update (rec_id r) r rs) persisted (records h)\<rparr>))"

text \<open>The body of the \<open>try\<close> block, run without interruption.\<close>

definition restore_try :: "history \<Rightarrow> get_item_result \<Rightarrow> unit outcome \<times> history" where
  "restore_try h got =
     (case restore_begin h got of
        (Suspended, h') \<Rightarrow> (Returned (), enable h')
      | (Threw e, h') \<Rightarrow> (Threw e, h')
      | (Returned u, h') \<Rightarrow> (Returned u, h'))"

text \<open>\<open>restore\<close>: the \<open>catch\<close> block logs the error and lets the call return.\<close>

definition restore :: "history \<Rightarrow> get_item_result \<Rightarrow> unit outcome \<times> history" where
  "restore h got =
     (case restore_try h got of
        (Threw e, h') \<Rightarrow> (Returned (), h')
      | (Suspended, h') \<Rightarrow> (Suspended, h')
      | (Returned u, h') \<Rightarrow> (Returned u, h'))"

definition init :: "history \<Rightarrow> get_item_result \<Rightarrow> unit outcome \<times> history" where
  "init h got = restore h got"

subsection \<open>Example states\<close>

text \<open>
  Scenario 5 of the specification: the request \<open>{id: 7, method: "eth_sign", params: [...]}\<close>
  recorded under a topic, and the history that holds its record.
\<close>

definition example_request :: jsonrpc_request where
  "example_request = \<lparr>req_id = 7, req_method = ''eth_sign'', req_params = JArr [JStr ''0xabc'']\<rparr>"

definition example_record :: jsonrpc_record where
  "example_record =
     \<lparr>rec_id = 7, rec_topic = ''topicA'',
      rec_request = \<lparr>rq_method = ''eth_sign'', rq_params = JArr [JStr ''0xabc'']\<rparr>,
      rec_chainId = None, rec_response = None\<rparr>"

definition example_history :: history where
  "example_history =
     \<lparr>records = [(7, example_record)], cached = [],
      events = [Created example_record], written = [[example_record]]\<rparr>"

text \<open>A second record, of another topic, and a history holding both.\<close>

definition other_record :: jsonrpc_record where
  "other_record =
     \<lparr>rec_id = 9, rec_topic = ''topicB'',
      rec_request = \<lparr>rq_method = ''eth_accounts'', rq_params = JNull\<rparr>,
      rec_chainId = Some ''eip155:1'', rec_response = Some (RespResult (JArr []))\<rparr>"

definition two_history :: history where
  "two_history =
     \<lparr>records = [(7, example_record), (9, other_record)], cached = [],
      events = [], written = []\<rparr>"

text \<open>
  A request without parameters, as the test constant \<open>TEST_ETHEREUM_REQUEST =
  {method: "eth_accounts"}\<close> gives once formatted: its \<open>params\<close> member is \<open>undefined\<close>.
\<close>

definition bare_request :: jsonrpc_request where
  "bare_request = \<lparr>req_id = 1, req_method = ''eth_accounts'', req_params = JUndefined\<rparr>"

text \<open>
  A history in the middle of \<open>restore\<close>: the snapshot \<open>[other_record]\<close> has been read and
  copied, \<open>enable\<close> has not run yet.
\<close>

definition restoring_history :: history where
  "restoring_history =
     \<lparr>records = [(9, other_record)], cached = [other_record], events = [], written = []\<rparr>"

section \<open>The relay server\<close>

subsection \<open>Options of the WebSocket server (genWsOptions)\<close>

text \<open>
  The options \<open>genWsOptions\<close> returns. \<open>verifyClient\<close> accepts every origin; an origin
  outside \<open>INTERNAL_ORIGINS\<close> is only reported to Sentry.
\<close>

record ws_options =
  maxPayload :: nat
  perMessageDeflate :: bool
  verifyClient :: "string \<Rightarrow> bool"

definition genWsOptions :: ws_options where
  "genWsOptions =
     \<lparr>maxPayload = 500 * 1024, perMessageDeflate = True, verifyClient = (\<lambda>origin. True)\<rparr>"

datatype frame_verdict =
    Accepted
  | ClosedWith nat

text \<open>
  Modelled from the spec: the size check on an inbound frame is made by the receiver of the
  \<open>ws\<close> package, which is not under src/; \<open>genWsOptions\<close> only hands it the limit
  \<open>maxPayload\<close>. In the specification's words, a frame larger than the ceiling is rejected
  and the socket is closed with code 1009. The argument is the size of the frame in bytes.
\<close>

definition receive_frame :: "ws_options \<Rightarrow> nat \<Rightarrow> frame_verdict" where
  "receive_frame opts n = (if maxPayload opts < n then ClosedWith 1009 else Accepted)"

subsection \<open>The socket session layer (class WebSocketService)\<close>

text \<open>
  Of a socket the service reads and writes the flag \<open>isAlive\<close>, which no code sets before
  the first beat: it is \<open>undefined\<close> (\<open>None\<close>), \<open>true\<close> or \<open>false\<close>.
\<close>

record socket =
  isAlive :: "bool option"

text \<open>
  What the service does to the outside, in order: the calls \<open>send\<close>, \<open>ping\<close> and
  \<open>terminate\<close> on a socket (named by its id), the events \<open>WEBSOCKET_EVENTS.open\<close> and
  \<open>.close\<close> emitted on the server, and the payloads handed on to the legacy and the
  JSON-RPC service.
\<close>

datatype ws_effect =
    SocketSend string string
  | SocketPing string
  | SocketTerminate string
  | EmitOpen string
  | EmitClose string
  | LegacyRequest string json
  | JsonRpcPayload string json

text \<open>
  The state of the service: \<open>sockets\<close> is the \<open>Map<string, Socket>\<close> (the live set), as an
  association list in insertion order; \<open>trace\<close> lists the effects so far.
\<close>

record ws_service =
  sockets :: "(string \<times> socket) list"
  trace :: "ws_effect list"

text \<open>
  What the handlers take from outside src/: \<open>JSON.parse\<close> (\<open>None\<close> is its SyntaxError) and
  \<open>JSON.stringify\<close>, the predicates \<open>isLegacySocketMessage\<close> and \<open>isJsonRpcPayload\<close>, and
  \<open>isLegacyDisabled(config.mode)\<close> and \<open>isJsonRpcDisabled(config.mode)\<close>.
\<close>

record ws_env =
  json_parse :: "string \<Rightarrow> json option"
  json_stringify :: "json \<Rightarrow> string"
  isLegacySocketMessage :: "json \<Rightarrow> bool"
  isJsonRpcPayload :: "json \<Rightarrow> bool"
  legacyDisabled :: bool
  jsonRpcDisabled :: bool

text \<open>
  Modelled from the spec: \<open>safeJsonParse\<close> of the safe-json package is not under src/. A
  frame that fails to parse comes back as the string it was, which is what the handler's
  test \<open>typeof payload === "string"\<close> reads as the failure.
\<close>

definition safeJsonParse :: "ws_env \<Rightarrow> string \<Rightarrow> json" where
  "safeJsonParse env s = (case json_parse env s of None \<Rightarrow> JStr s | Some v \<Rightarrow> v)"

text \<open>
  Modelled from the spec: \<open>safeJsonStringify\<close> of the same package, not under src/ either:
  a string is left as it is, any other value is serialised by \<open>JSON.stringify\<close>.
\<close>

definition safeJsonStringify :: "ws_env \<Rightarrow> json \<Rightarrow> string" where
  "safeJsonStringify env v = (case v of JStr s \<Rightarrow> s | _ \<Rightarrow> json_stringify env v)"

text \<open>
  \<open>String.prototype.trim\<close>, for the white space and line terminators among the
  characters below 256.
\<close>

definition is_whitespace :: "char \<Rightarrow> bool" where
  "is_whitespace c = (of_char c \<in> set [9, 10, 11, 12, 13, 32, 160 :: nat])"

definition trim :: "string \<Rightarrow> string" where
  "trim s = rev (dropWhile is_whitespace (rev (dropWhile is_whitespace s)))"

text \<open>
  A text can be a JSON object, and so a JSON-RPC response, only if its first character
  after white space is an opening brace.
\<close>

definition may_be_json_object :: "string \<Rightarrow> bool" where
  "may_be_json_object s =
     (case dropWhile is_whitespace s of [] \<Rightarrow> False | c # cs \<Rightarrow> c = CHR ''{'')"

definition getSocket :: "ws_service \<Rightarrow> string \<Rightarrow> socket option" where
  "getSocket st socketId = map_of (sockets st) socketId"

text \<open>
  \<open>send\<close>: the result is the boolean returned and the state after the call. The message is
  \<open>typeof msg === "string" ? msg : safeJsonStringify(msg)\<close>.
\<close>

definition ws_send :: "ws_env \<Rightarrow> ws_service \<Rightarrow> string \<Rightarrow> json \<Rightarrow> bool \<times> ws_service" where
  "ws_send env st socketId msg =
     (case getSocket st socketId of
        None \<Rightarrow> (False, st)
      | Some socket \<Rightarrow>
          let message = (case msg of JStr s \<Rightarrow> s | _ \<Rightarrow> safeJsonStringify env msg)
          in (True, st\<lparr>trace := trace st @ [SocketSend socketId message]\<rparr>))"

definition addNewSocket :: "ws_service \<Rightarrow> string \<Rightarrow> socket \<Rightarrow> ws_service" where
  "addNewSocket st socketId socket =
     st\<lparr>sockets := AList.update socketId socket (sockets st),
        trace := trace st @ [EmitOpen socketId]\<rparr>"

text \<open>The listener of \<open>message\<close> that \<open>addNewSocket\<close> registers on the socket.\<close>

definition on_message :: "ws_env \<Rightarrow> ws_service \<Rightarrow> string \<Rightarrow> string \<Rightarrow> ws_service" where
  "on_message env st socketId message =
     (if message = [] \<or> trim message = []
        then snd (ws_send env st socketId (JStr ''Missing or invalid socket data''))
      else
        let payload = safeJsonParse env message in
        if is_string payload
          then snd (ws_send env st socketId (JStr ''Socket message is invalid''))
        else if isLegacySocketMessage env payload then
          (if legacyDisabled env
             then snd (ws_send env st socketId (JStr ''Legacy messages are disabled''))
           else st\<lparr>trace := trace st @ [LegacyRequest socketId payload]\<rparr>)
        else if isJsonRpcPayload env payload then
          (if jsonRpcDisabled env
             then snd (ws_send env st socketId (JStr ''JSON-RPC messages are disabled''))
           else st\<lparr>trace := trace st @ [JsonRpcPayload socketId payload]\<rparr>)
        else snd (ws_send env st socketId (JStr ''Socket message unsupported'')))"

text \<open>The listener of \<open>pong\<close>: \<open>socket.isAlive = true\<close>.\<close>

definition on_pong :: "ws_service \<Rightarrow> string \<Rightarrow> ws_service" where
  "on_pong st socketId =
     st\<lparr>sockets := AList.map_entry socketId (\<lambda>socket. socket\<lparr>isAlive := Some True\<rparr>) (sockets st)\<rparr>"

text \<open>The listener of \<open>close\<close>.\<close>

definition on_close :: "ws_service \<Rightarrow> string \<Rightarrow> ws_service" where
  "on_close st socketId =
     st\<lparr>sockets := AList.delete socketId (sockets st),
        trace := trace st @ [EmitClose socketId]\<rparr>"

text \<open>
  \<open>clearInactiveSockets\<close>, the listener of the server's beat: the body of its \<open>forEach\<close>
  for one id, and the loop over the ids taken when it starts.
\<close>

definition beat_step :: "ws_service \<Rightarrow> string \<Rightarrow> ws_service" where
  "beat_step st socketId =
     (case map_of (sockets st) socketId of
        None \<Rightarrow> st
      | Some socket \<Rightarrow>
          if isAlive socket = Some False then
            st\<lparr>sockets := AList.delete socketId (sockets st),
               trace := trace st @ [SocketTerminate socketId, EmitClose socketId]\<rparr>
          else
            st\<lparr>sockets := AList.update socketId (socket\<lparr>isAlive := Some False\<rparr>) (sockets st),
               trace := trace st @ [SocketPing socketId]\<rparr>)"

fun beat_loop :: "ws_service \<Rightarrow> string list \<Rightarrow> ws_service" where
  "beat_loop st [] = st"
| "beat_loop st (socketId # socketIds) = beat_loop (beat_step st socketId) socketIds"

definition clearInactiveSockets :: "ws_service \<Rightarrow> ws_service" where
  "clearInactiveSockets st = beat_loop st (map fst (sockets st))"

text \<open>
  What reaches the service over time: a beat of the server, and a pong, a frame or the
  close of one socket. \<open>ws_run\<close> handles a sequence of them in order.
\<close>

datatype ws_input =
    Beat
  | Pong string
  | Message string string
  | Close string

fun ws_step :: "ws_env \<Rightarrow> ws_service \<Rightarrow> ws_input \<Rightarrow> ws_service" where
  "ws_step env st Beat = clearInactiveSockets st"
| "ws_step env st (Pong socketId) = on_pong st socketId"
| "ws_step env st (Message socketId message) = on_message env st socketId message"
| "ws_step env st (Close socketId) = on_close st socketId"

fun ws_run :: "ws_env \<Rightarrow> ws_service \<Rightarrow> ws_input list \<Rightarrow> ws_service" where
  "ws_run env st [] = st"
| "ws_run env st (input # inputs) = ws_run env (ws_step env st input) inputs"

text \<open>
  A socket answers every ping in a sequence of inputs when a pong of it comes between any
  two beats. The flag says whether no ping is waiting for its pong at the start.
\<close>

fun answers_pings :: "string \<Rightarrow> bool \<Rightarrow> ws_input list \<Rightarrow> bool" where
  "answers_pings socketId answered [] = True"
| "answers_pings socketId answered (Beat # inputs) =
     (answered \<and> answers_pings socketId False inputs)"
| "answers_pings socketId answered (Pong i # inputs) =
     answers_pings socketId (answered \<or> i = socketId) inputs"
| "answers_pings socketId answered (Message i m # inputs) =
     answers_pings socketId answered inputs"
| "answers_pings socketId answered (Close i # inputs) =
     answers_pings socketId answered inputs"

subsection \<open>Example states\<close>

text \<open>
  A service with two sockets, the second of which has not answered its last ping, and
  stand-ins for what comes from outside: a \<open>JSON.parse\<close> that accepts only the text \<open>{}\<close>,
  and a \<open>JSON.stringify\<close> that prints every value as \<open>{}\<close>.
\<close>

definition example_ws :: ws_service where
  "example_ws =
     \<lparr>sockets = [(''sock1'', \<lparr>isAlive = Some True\<rparr>), (''sock2'', \<lparr>isAlive = Some False\<rparr>)],
      trace = []\<rparr>"

definition example_env :: ws_env where
  "example_env =
     \<lparr>json_parse = (\<lambda>s. if s = ''{}'' then Some (JObj []) else None),
      json_stringify = (\<lambda>v. ''{}''),
      isLegacySocketMessage = (\<lambda>v. False),
      isJsonRpcPayload = (\<lambda>v. False),
      legacyDisabled = False,
      jsonRpcDisabled = False\<rparr>"

section \<open>Properties of the history\<close>

lemma history_inv_new: "history_inv new_history"
  by (simp add: history_inv_def new_history_def)

lemma getRecord_enabled:
  "isEnabled h \<Longrightarrow> getRecord h i =
     (case map_of (records h) i of None \<Rightarrow> Threw (NO_MATCHING_ID i) | Some r \<Rightarrow> Returned r)"
  by (simp add: getRecord_def)

lemma history_inv_rec_id:
  "history_inv h \<Longrightarrow> map_of (records h) k = Some r \<Longrightarrow> rec_id r = k"
  unfolding history_inv_def list_all_iff
  by (auto dest: map_of_SomeD)

lemma persist_simps [simp]:
  "records (persist h) = records h"
  "cached (persist h) = cached h"
  "events (persist h) = events h"
  by (simp_all add: persist_def)

lemma history_inv_fields [simp]:
  "history_inv (h\<lparr>events := es\<rparr>) = history_inv h"
  "history_inv (h\<lparr>written := ws\<rparr>) = history_inv h"
  "history_inv (h\<lparr>cached := cs\<rparr>) = history_inv h"
  by (simp_all add: history_inv_def)

lemma history_inv_persist [simp]: "history_inv (persist h) = history_inv h"
  by (simp add: history_inv_def)

lemma records_emit [simp]: "records (emit h e) = records h"
  by (cases e) (simp_all add: persist_def)

lemma cached_emit [simp]: "cached (emit h e) = cached h"
  by (cases e) (simp_all add: persist_def)

lemma events_emit [simp]: "events (emit h e) = events h @ [e]"
  by (cases e) (simp_all add: persist_def)

lemma history_inv_emit [simp]: "history_inv (emit h e) = history_inv h"
  by (simp add: history_inv_def)

lemma set_update_subset: "set (AList.update k v al) \<subseteq> insert (k, v) (set al)"
  by (induction al) auto

lemma history_inv_update_records:
  "history_inv h \<Longrightarrow> rec_id r = k \<Longrightarrow> history_inv (h\<lparr>records := AList.update k r (records h)\<rparr>)"
  unfolding history_inv_def list_all_iff
  using set_update_subset[of k r "records h"]
  by (auto simp: distinct_update)

lemma history_inv_delete_records:
  "history_inv h \<Longrightarrow> history_inv (h\<lparr>records := AList.delete k (records h)\<rparr>)"
  unfolding history_inv_def list_all_iff
  by (auto simp: distinct_map_filter AList.delete_eq)

lemma history_update_unfold:
  "history_update h topic response =
     (if \<not> isEnabled h then (Suspended, h)
      else case map_of (records h) (response_id response) of
             None \<Rightarrow> (Returned (), h)
           | Some r \<Rightarrow> update_write h topic response r)"
  by (simp add: history_update_def update_begin_def update_read_def records_has_def
      split: option.splits)

lemma update_write_inv:
  "history_inv h \<Longrightarrow> rec_id r = response_id response
   \<Longrightarrow> history_inv (snd (update_write h topic response r))"
  by (simp add: update_write_def Let_def history_inv_update_records)


lemma history_update_inv:
  "history_inv h \<Longrightarrow> history_inv (snd (history_update h topic response))"
  by (auto simp: history_update_unfold update_write_inv history_inv_rec_id split: option.splits)


lemma example_history_set:
  "history_set new_history ''topicA'' example_request None = (Returned (), example_history)"
  by (simp add: history_set_def isEnabled_def new_history_def records_has_def example_request_def
      example_record_def example_history_def or_null_def persist_def history_values_def Let_def)

text \<open>
  Claim C6. A call \<open>get(topic, id)\<close> that has passed the restoration gate fails with
  \<open>NO_MATCHING_ID\<close> when no record has the id, fails with \<open>MISMATCHED_TOPIC\<close> when the
  record found is of another topic, and otherwise returns the stored record; in every
  case (gate closed included) the state, and so the record map, is what it was.
\<close>

theorem history_get_spec:
  assumes "isEnabled h"
  shows "(map_of (records h) i = None \<longrightarrow> fst (history_get h topic i) = Threw (NO_MATCHING_ID i))
       \<and> (\<forall>r. map_of (records h) i = Some r \<and> rec_topic r \<noteq> topic
              \<longrightarrow> fst (history_get h topic i) = Threw (MISMATCHED_TOPIC i))
       \<and> (\<forall>r. map_of (records h) i = Some r \<and> rec_topic r = topic
              \<longrightarrow> fst (history_get h topic i) = Returned r)
       \<and> snd (history_get h topic i) = h"
  using assms
  by (auto simp: history_get_def getRecord_enabled split: option.splits)

theorem history_get_spec_witness:
  "isEnabled two_history
   \<and> fst (history_get two_history ''topicA'' 8) = Threw (NO_MATCHING_ID 8)
   \<and> fst (history_get two_history ''topicA'' 9) = Threw (MISMATCHED_TOPIC 9)
   \<and> fst (history_get two_history ''topicA'' 7) = Returned example_record
   \<and> snd (history_get two_history ''topicA'' 7) = two_history"
proof -
  have en: "isEnabled two_history"
    by (simp add: isEnabled_def two_history_def)
  have m8: "map_of (records two_history) 8 = None"
    and m9: "map_of (records two_history) 9 = Some other_record"
    and m7: "map_of (records two_history) 7 = Some example_record"
    by (simp_all add: two_history_def)
  have t9: "rec_topic other_record \<noteq> ''topicA''" and t7: "rec_topic example_record = ''topicA''"
    by (simp_all add: other_record_def example_record_def)
  from history_get_spec [OF en, of 8 "''topicA''"] m8
  have a: "fst (history_get two_history ''topicA'' 8) = Threw (NO_MATCHING_ID 8)" by simp
  from history_get_spec [OF en, of 9 "''topicA''"] m9 t9
  have b: "fst (history_get two_history ''topicA'' 9) = Threw (MISMATCHED_TOPIC 9)" by simp
  from history_get_spec [OF en, of 7 "''topicA''"] m7 t7
  have c: "fst (history_get two_history ''topicA'' 7) = Returned example_record
           \<and> snd (history_get two_history ''topicA'' 7) = two_history" by simp
  from en a b c show ?thesis by simp
qed

lemma history_updates_inv:
  "history_inv h \<Longrightarrow> history_inv (history_updates h calls)"
  by (induction h calls rule: history_updates.induct) (simp_all add: history_update_inv)






lemma two_history_inv: "history_inv two_history"
  by (simp add: history_inv_def two_history_def example_record_def other_record_def)

lemma two_history_enabled: "isEnabled two_history"
  by (simp add: isEnabled_def two_history_def)



lemma update_fresh: "k \<notin> fst ` set al \<Longrightarrow> AList.update k v al = al @ [(k, v)]"
  by (induction al) auto

lemma records_has_iff: "records_has h k \<longleftrightarrow> k \<in> fst ` set (records h)"
  by (simp add: records_has_def map_of_eq_None_iff)

lemma history_set_exists:
  "isEnabled h \<Longrightarrow> records_has h (req_id request)
   \<Longrightarrow> history_set h topic request chainId = (Threw (RECORD_ALREADY_EXISTS (req_id request)), h)"
  by (simp add: history_set_def)

lemma history_set_fresh:
  assumes "isEnabled h" and "\<not> records_has h (req_id request)"
    and "r = \<lparr>rec_id = req_id request, rec_topic = topic,
              rec_request = \<lparr>rq_method = req_method request,
                              rq_params = or_null (req_params request)\<rparr>,
              rec_chainId = chainId, rec_response = None\<rparr>"
  shows "history_set h topic request chainId =
           (Returned (), emit (h\<lparr>records := records h @ [(req_id request, r)]\<rparr>) (Created r))"
  using assms by (simp add: history_set_def Let_def update_fresh records_has_iff)

lemma history_get_found:
  "isEnabled h \<Longrightarrow> map_of (records h) i = Some r \<Longrightarrow> rec_topic r = topic
   \<Longrightarrow> history_get h topic i = (Returned r, h)"
  by (simp add: history_get_def getRecord_enabled)

text \<open>
  Claim C5, as amended. A call \<open>set(topic, request, chainId)\<close> that has passed the
  restoration gate throws \<open>RECORD_ALREADY_EXISTS\<close> and leaves the state unchanged when a
  record with the id \<open>request.id\<close> exists, whatever its topic. Otherwise it returns, the
  record \<open>{id: request.id, topic, request: {method, params: request.params || null},
  chainId}\<close> with no response is added at the end of the map, and \<open>get(topic, request.id)\<close>
  returns that record.
\<close>

theorem history_set_spec:
  assumes "isEnabled h"
  shows "(records_has h (req_id request)
            \<longrightarrow> history_set h topic request chainId =
                  (Threw (RECORD_ALREADY_EXISTS (req_id request)), h))
       \<and> (\<not> records_has h (req_id request)
            \<longrightarrow> fst (history_set h topic request chainId) = Returned ()
              \<and> records (snd (history_set h topic request chainId)) =
                  records h @
                  [(req_id request,
                    \<lparr>rec_id = req_id request, rec_topic = topic,
                     rec_request = \<lparr>rq_method = req_method request,
                                     rq_params = or_null (req_params request)\<rparr>,
                     rec_chainId = chainId, rec_response = None\<rparr>)]
              \<and> history_get (snd (history_set h topic request chainId)) topic (req_id request) =
                  (Returned
                    \<lparr>rec_id = req_id request, rec_topic = topic,
                     rec_request = \<lparr>rq_method = req_method request,
                                     rq_params = or_null (req_params request)\<rparr>,
                     rec_chainId = chainId, rec_response = None\<rparr>,
                   snd (history_set h topic request chainId)))"
proof (intro conjI impI)
  assume "records_has h (req_id request)"
  then show "history_set h topic request chainId =
      (Threw (RECORD_ALREADY_EXISTS (req_id request)), h)"
    using assms by (rule history_set_exists [rotated])
next
  define r where "r = \<lparr>rec_id = req_id request, rec_topic = topic,
      rec_request = \<lparr>rq_method = req_method request, rq_params = or_null (req_params request)\<rparr>,
      rec_chainId = chainId, rec_response = None\<rparr>"
  assume fresh: "\<not> records_has h (req_id request)"
  have eq: "history_set h topic request chainId =
      (Returned (), emit (h\<lparr>records := records h @ [(req_id request, r)]\<rparr>) (Created r))"
    using assms fresh r_def by (rule history_set_fresh)
  show "fst (history_set h topic request chainId) = Returned ()"
    by (simp add: eq)
  show "records (snd (history_set h topic request chainId)) = records h @ [(req_id request, r)]"
    by (simp add: eq)
  have "isEnabled (snd (history_set h topic request chainId))"
    using assms by (simp add: eq isEnabled_def)
  moreover have "map_of (records (snd (history_set h topic request chainId))) (req_id request) = Some r"
    using fresh by (simp add: eq records_has_def map_add_Some_iff)
  moreover have "rec_topic r = topic"
    by (simp add: r_def)
  ultimately show "history_get (snd (history_set h topic request chainId)) topic (req_id request) =
      (Returned r, snd (history_set h topic request chainId))"
    by (rule history_get_found)
qed

lemma delete_step_records:
  "records (delete_step topic i h r) =
     (if rec_topic r = topic \<and> (i = None \<or> i = Some (rec_id r))
      then AList.delete (rec_id r) (records h) else records h)"
  by (auto simp: delete_step_def)

lemma delete_step_events:
  "events (delete_step topic i h r) =
     events h @ (if rec_topic r = topic \<and> (i = None \<or> i = Some (rec_id r)) then [Deleted r] else [])"
  by (auto simp: delete_step_def)

lemma delete_step_cached [simp]: "cached (delete_step topic i h r) = cached h"
  by (simp add: delete_step_def)

lemma delete_loop_cached [simp]: "cached (delete_loop topic i h rs) = cached h"
  by (induction rs arbitrary: h) simp_all

lemma delete_loop_events:
  "events (delete_loop topic i h rs) =
     events h @ map Deleted (filter (\<lambda>r. rec_topic r = topic \<and> (i = None \<or> i = Some (rec_id r))) rs)"
  by (induction rs arbitrary: h) (simp_all add: delete_step_events)

lemma delete_loop_records:
  "records (delete_loop topic i h rs) =
     filter (\<lambda>(k, v). \<not> (\<exists>r \<in> set rs. rec_topic r = topic \<and> (i = None \<or> i = Some (rec_id r)) \<and> rec_id r = k))
       (records h)"
proof (induction rs arbitrary: h)
  case Nil
  then show ?case by simp
next
  case (Cons r rs)
  show ?case
    by (auto simp: Cons.IH delete_step_records AList.delete_eq intro!: filter_cong)
qed

lemma history_inv_values:
  assumes "history_inv h" and "(k, v) \<in> set (records h)"
  shows "(\<exists>r \<in> set (history_values h). P r \<and> rec_id r = k) \<longleftrightarrow> P v"
proof -
  from assms have id: "rec_id v = k"
    by (auto simp: history_inv_def list_all_iff)
  have d: "distinct (map fst (records h))"
    using assms(1) by (simp add: history_inv_def)
  show ?thesis
  proof
    assume "\<exists>r \<in> set (history_values h). P r \<and> rec_id r = k"
    then obtain k' r where in': "(k', r) \<in> set (records h)" and p: "P r" and rk: "rec_id r = k"
      by (auto simp: history_values_def)
    from assms(1) in' have "rec_id r = k'"
      by (auto simp: history_inv_def list_all_iff)
    with rk have "k' = k" by simp
    with d in' assms(2) have "r = v"
      by (metis eq_key_imp_eq_value)
    with p show "P v" by simp
  next
    assume "P v"
    with id assms(2) show "\<exists>r \<in> set (history_values h). P r \<and> rec_id r = k"
      by (force simp: history_values_def)
  qed
qed

lemma history_delete_records:
  assumes "history_inv h"
  shows "records (delete_loop topic i h (history_values h)) =
           filter (\<lambda>(k, r). \<not> (rec_topic r = topic \<and> (i = None \<or> i = Some k))) (records h)"
proof -
  have "\<And>k v. (k, v) \<in> set (records h) \<Longrightarrow>
      (\<exists>r \<in> set (history_values h). (rec_topic r = topic \<and> (i = None \<or> i = Some (rec_id r))) \<and> rec_id r = k)
      \<longleftrightarrow> (rec_topic v = topic \<and> (i = None \<or> i = Some (rec_id v)))"
    using assms by (rule history_inv_values)
  moreover have "\<And>k v. (k, v) \<in> set (records h) \<Longrightarrow> rec_id v = k"
    using assms by (auto simp: history_inv_def list_all_iff)
  ultimately show ?thesis
    unfolding delete_loop_records
    by (intro filter_cong) (auto simp del: bex_simps)
qed

lemma filter_id_absent:
  assumes "list_all (\<lambda>(k, r). rec_id r = k) rs" and "j \<notin> fst ` set rs"
  shows "filter (\<lambda>r. P r \<and> j = rec_id r) (map snd rs) = []"
  using assms by (induction rs) (auto simp: list_all_iff)

lemma filter_id_unique:
  assumes "distinct (map fst rs)" and "list_all (\<lambda>(k, r). rec_id r = k) rs"
  shows "filter (\<lambda>r. P r \<and> j = rec_id r) (map snd rs) =
           (case map_of rs j of None \<Rightarrow> [] | Some r \<Rightarrow> if P r then [r] else [])"
  using assms
proof (induction rs)
  case Nil
  then show ?case by simp
next
  case (Cons p rs)
  obtain k v where p: "p = (k, v)" by (cases p)
  from Cons.prems p have kv: "rec_id v = k" and rest: "list_all (\<lambda>(k, r). rec_id r = k) rs"
    and d: "distinct (map fst rs)" and fresh: "k \<notin> fst ` set rs"
    by auto
  show ?case
  proof (cases "k = j")
    case True
    with fresh rest have "filter (\<lambda>r. P r \<and> j = rec_id r) (map snd rs) = []"
      by (simp add: filter_id_absent)
    with True p kv show ?thesis by simp
  next
    case False
    with p kv Cons.IH [OF d rest] show ?thesis by simp
  qed
qed

lemma history_delete_one_events:
  assumes "history_inv h"
  shows "filter (\<lambda>r. rec_topic r = topic \<and> (Some j = None \<or> Some j = Some (rec_id r))) (history_values h) =
           (case map_of (records h) j of
              None \<Rightarrow> []
            | Some r \<Rightarrow> if rec_topic r = topic then [r] else [])"
proof -
  have "filter (\<lambda>r. rec_topic r = topic \<and> j = rec_id r) (map snd (records h)) =
           (case map_of (records h) j of
              None \<Rightarrow> []
            | Some r \<Rightarrow> if rec_topic r = topic then [r] else [])"
    using assms unfolding history_inv_def by (intro filter_id_unique) auto
  then show ?thesis
    by (simp add: history_values_def)
qed

lemma history_delete_one_records:
  assumes "history_inv h"
  shows "filter (\<lambda>(k, r). \<not> (rec_topic r = topic \<and> (Some j = None \<or> Some j = Some k))) (records h) =
           (case map_of (records h) j of
              None \<Rightarrow> records h
            | Some r \<Rightarrow> if rec_topic r = topic then AList.delete j (records h) else records h)"
proof (cases "map_of (records h) j")
  case None
  then have "j \<notin> fst ` set (records h)"
    by (simp add: map_of_eq_None_iff)
  then have "filter (\<lambda>(k, r). \<not> (rec_topic r = topic \<and> (Some j = None \<or> Some j = Some k))) (records h)
      = records h"
    by (intro iffD2 [OF filter_id_conv]) force
  with None show ?thesis by simp
next
  case (Some r)
  have d: "distinct (map fst (records h))"
    using assms by (simp add: history_inv_def)
  have uniq: "\<And>k v. (k, v) \<in> set (records h) \<Longrightarrow> k = j \<Longrightarrow> v = r"
    using d Some by (metis map_of_is_SomeI option.inject)
  show ?thesis
  proof (cases "rec_topic r = topic")
    case True
    have "filter (\<lambda>(k, r). \<not> (rec_topic r = topic \<and> (Some j = None \<or> Some j = Some k))) (records h)
        = filter (\<lambda>(k, v). j \<noteq> k) (records h)"
      using uniq True by (intro filter_cong) auto
    with Some True show ?thesis by (simp add: AList.delete_eq)
  next
    case False
    have "filter (\<lambda>(k, r). \<not> (rec_topic r = topic \<and> (Some j = None \<or> Some j = Some k))) (records h)
        = records h"
      using uniq False by (intro iffD2 [OF filter_id_conv]) auto
    with Some False show ?thesis by simp
  qed
qed

text \<open>
  Claim C7. A call \<open>delete(topic, id)\<close> that has passed the restoration gate returns. With an
  id it removes the entry of that id when its record is of the topic, and emits one
  \<open>deleted\<close> event for it; when no record has the id, or the record is of another topic,
  nothing is removed and nothing is emitted. Without an id it removes every record of the
  topic and emits one \<open>deleted\<close> event per removed record, in the order of the map. All
  other entries stay as they are, in their order.
\<close>

theorem history_delete_spec:
  assumes "history_inv h" and "isEnabled h"
  shows "fst (history_delete h topic (Some j)) = Returned ()
       \<and> records (snd (history_delete h topic (Some j))) =
           (case map_of (records h) j of
              None \<Rightarrow> records h
            | Some r \<Rightarrow> if rec_topic r = topic then AList.delete j (records h) else records h)
       \<and> events (snd (history_delete h topic (Some j))) =
           events h @
           (case map_of (records h) j of
              None \<Rightarrow> []
            | Some r \<Rightarrow> if rec_topic r = topic then [Deleted r] else [])
       \<and> fst (history_delete h topic None) = Returned ()
       \<and> records (snd (history_delete h topic None)) =
           filter (\<lambda>(k, r). rec_topic r \<noteq> topic) (records h)
       \<and> events (snd (history_delete h topic None)) =
           events h @ map Deleted (filter (\<lambda>r. rec_topic r = topic) (history_values h))"
proof -
  have one: "snd (history_delete h topic (Some j)) = delete_loop topic (Some j) h (history_values h)"
    and all: "snd (history_delete h topic None) = delete_loop topic None h (history_values h)"
    using assms(2) by (simp_all add: history_delete_def)
  have a: "fst (history_delete h topic (Some j)) = Returned ()"
    and d: "fst (history_delete h topic None) = Returned ()"
    using assms(2) by (simp_all add: history_delete_def)
  have b: "records (snd (history_delete h topic (Some j))) =
           (case map_of (records h) j of
              None \<Rightarrow> records h
            | Some r \<Rightarrow> if rec_topic r = topic then AList.delete j (records h) else records h)"
    unfolding one history_delete_records [OF assms(1)]
    using assms(1) by (rule history_delete_one_records)
  have c: "events (snd (history_delete h topic (Some j))) =
           events h @
           (case map_of (records h) j of
              None \<Rightarrow> []
            | Some r \<Rightarrow> if rec_topic r = topic then [Deleted r] else [])"
    unfolding one delete_loop_events history_delete_one_events [OF assms(1)]
    by (simp split: option.splits)
  have e: "records (snd (history_delete h topic None)) =
           filter (\<lambda>(k, r). rec_topic r \<noteq> topic) (records h)"
    unfolding all history_delete_records [OF assms(1)] by simp
  have f: "events (snd (history_delete h topic None)) =
           events h @ map Deleted (filter (\<lambda>r. rec_topic r = topic) (history_values h))"
    unfolding all delete_loop_events by simp
  from a b c d e f show ?thesis by simp
qed

theorem history_delete_spec_witness:
  "history_inv two_history \<and> isEnabled two_history
   \<and> fst (history_delete two_history ''topicA'' (Some 7)) = Returned ()
   \<and> records (snd (history_delete two_history ''topicA'' (Some 7))) = [(9, other_record)]
   \<and> events (snd (history_delete two_history ''topicA'' (Some 7))) = [Deleted example_record]
   \<and> records (snd (history_delete two_history ''topicA'' (Some 9))) = records two_history
   \<and> events (snd (history_delete two_history ''topicA'' (Some 9))) = []
   \<and> records (snd (history_delete two_history ''topicB'' None)) = [(7, example_record)]
   \<and> events (snd (history_delete two_history ''topicB'' None)) = [Deleted other_record]"
proof -
  note inv = two_history_inv and en = two_history_enabled
  have t: "rec_topic other_record = ''topicB''" "rec_topic example_record = ''topicA''"
    by (simp_all add: other_record_def example_record_def)
  from history_delete_spec [OF inv en, of "''topicA''" 7] t
  have a: "fst (history_delete two_history ''topicA'' (Some 7)) = Returned ()
      \<and> records (snd (history_delete two_history ''topicA'' (Some 7))) = [(9, other_record)]
      \<and> events (snd (history_delete two_history ''topicA'' (Some 7))) = [Deleted example_record]"
    by (simp add: two_history_def)
  from history_delete_spec [OF inv en, of "''topicA''" 9] t
  have b: "records (snd (history_delete two_history ''topicA'' (Some 9))) = records two_history
      \<and> events (snd (history_delete two_history ''topicA'' (Some 9))) = []"
    by (simp add: two_history_def)
  from history_delete_spec [OF inv en, of "''topicB''" 7] t
  have c: "records (snd (history_delete two_history ''topicB'' None)) = [(7, example_record)]
      \<and> events (snd (history_delete two_history ''topicB'' None)) = [Deleted other_record]"
    by (simp add: two_history_def history_values_def)
  from inv en a b c show ?thesis by simp
qed

lemma new_history_enabled: "isEnabled new_history"
  by (simp add: isEnabled_def new_history_def)

lemma example_history_enabled: "isEnabled example_history"
  by (simp add: isEnabled_def example_history_def)

text \<open>
  The theorem of claim C5 at the empty history and at the example history.
\<close>

theorem history_set_spec_witness:
  "isEnabled new_history \<and> isEnabled example_history
   \<and> history_set example_history ''topicB'' example_request None =
       (Threw (RECORD_ALREADY_EXISTS 7), example_history)
   \<and> fst (history_set new_history ''topicA'' example_request None) = Returned ()
   \<and> records (snd (history_set new_history ''topicA'' example_request None)) = [(7, example_record)]
   \<and> fst (history_get (snd (history_set new_history ''topicA'' example_request None)) ''topicA'' 7)
       = Returned example_record"
proof -
  have has: "records_has example_history (req_id example_request)"
    and fresh: "\<not> records_has new_history (req_id example_request)"
    by (simp_all add: records_has_def example_history_def example_request_def new_history_def)
  from history_set_spec [OF example_history_enabled, of example_request "''topicB''" None] has
  have a: "history_set example_history ''topicB'' example_request None =
       (Threw (RECORD_ALREADY_EXISTS 7), example_history)"
    by (simp add: example_request_def)
  from history_set_spec [OF new_history_enabled, of example_request "''topicA''" None] fresh
  have b: "fst (history_set new_history ''topicA'' example_request None) = Returned ()
   \<and> records (snd (history_set new_history ''topicA'' example_request None)) = [(7, example_record)]
   \<and> fst (history_get (snd (history_set new_history ''topicA'' example_request None)) ''topicA'' 7)
       = Returned example_record"
    by (simp add: example_request_def example_record_def new_history_def or_null_def)
  from new_history_enabled example_history_enabled a b show ?thesis by simp
qed

text \<open>
  Claim C5 as stated fails for a request whose \<open>params\<close> is falsy: the stored record holds
  \<open>params: null\<close>, not the \<open>params\<close> of the request.
\<close>

theorem history_set_params_counterexample:
  "isEnabled new_history \<and> \<not> records_has new_history (req_id bare_request)
   \<and> map_of (records (snd (history_set new_history ''topicA'' bare_request None))) (req_id bare_request)
       \<noteq> Some \<lparr>rec_id = req_id bare_request, rec_topic = ''topicA'',
                 rec_request = \<lparr>rq_method = req_method bare_request,
                                 rq_params = req_params bare_request\<rparr>,
                 rec_chainId = None, rec_response = None\<rparr>
   \<and> map_of (records (snd (history_set new_history ''topicA'' bare_request None))) (req_id bare_request)
       = Some \<lparr>rec_id = 1, rec_topic = ''topicA'',
                rec_request = \<lparr>rq_method = ''eth_accounts'', rq_params = JNull\<rparr>,
                rec_chainId = None, rec_response = None\<rparr>"
  by (simp add: history_set_def isEnabled_def new_history_def records_has_def bare_request_def
      or_null_def Let_def)

lemma suspended_iff:
  "fst (history_set h topic request chainId) = Suspended \<longleftrightarrow> cached h \<noteq> []"
  "fst (history_update h topic response) = Suspended \<longleftrightarrow> cached h \<noteq> []"
  "fst (history_delete h topic i) = Suspended \<longleftrightarrow> cached h \<noteq> []"
  by (auto simp: history_set_def history_update_unfold update_write_def history_delete_def
      isEnabled_def Let_def split: option.splits)

lemma suspended_unchanged:
  assumes "cached h \<noteq> []"
  shows "history_set h topic request chainId = (Suspended, h)"
    and "history_update h topic response = (Suspended, h)"
    and "history_delete h topic i = (Suspended, h)"
  using assms
  by (simp_all add: history_set_def history_update_unfold history_delete_def isEnabled_def)

lemma restore_begin_suspended:
  assumes "restore_begin h got = (Suspended, h')"
  shows "cached h' \<noteq> [] \<and> got = GetItem (cached h') \<and> records h = []
       \<and> records h' = fold (\<lambda>r rs. AList.update (rec_id r) r rs) (cached h') []"
  using assms by (auto simp: restore_begin_def split: get_item_result.splits if_splits)

lemma cached_enable [simp]: "cached (enable h) = []"
  by (simp add: enable_def)

text \<open>
  Claim C3, as amended. A \<open>set\<close>, \<open>update\<close> or \<open>delete\<close> is suspended exactly when it is
  invoked while \<open>cached\<close> is non-empty, and a suspended call leaves the state as it is.
  \<open>restore\<close> makes \<open>cached\<close> non-empty only in the stretch between copying a non-empty
  snapshot into the empty record map and \<open>enable\<close>, which empties \<open>cached\<close> again and so
  opens the gate; on every other path it leaves the state as it is, and a \<open>restore\<close> that
  starts with the gate open ends with the gate open. A mutation invoked while \<open>cached\<close> is
  empty, as it is from construction until the snapshot has been read, is not suspended.
\<close>

theorem history_gate_spec:
  "(fst (history_set h topic request chainId) = Suspended \<longleftrightarrow> cached h \<noteq> [])
   \<and> (fst (history_update h topic response) = Suspended \<longleftrightarrow> cached h \<noteq> [])
   \<and> (fst (history_delete h topic i) = Suspended \<longleftrightarrow> cached h \<noteq> [])
   \<and> (cached h \<noteq> [] \<longrightarrow>
        snd (history_set h topic request chainId) = h
      \<and> snd (history_update h topic response) = h
      \<and> snd (history_delete h topic i) = h)
   \<and> (\<forall>h'. restore_begin h got = (Suspended, h') \<longrightarrow>
        cached h' \<noteq> [] \<and> got = GetItem (cached h') \<and> records h = []
      \<and> records h' = fold (\<lambda>r rs. AList.update (rec_id r) r rs) (cached h') []
      \<and> isEnabled (enable h'))
   \<and> (fst (restore_begin h got) \<noteq> Suspended \<longrightarrow> snd (restore_begin h got) = h)
   \<and> (cached h = [] \<longrightarrow> isEnabled (snd (restore h got)))"
proof (intro conjI allI impI)
  fix h'
  assume a: "restore_begin h got = (Suspended, h')"
  from restore_begin_suspended [OF a]
  show "cached h' \<noteq> []" and "got = GetItem (cached h')" and "records h = []"
    and "records h' = fold (\<lambda>r rs. AList.update (rec_id r) r rs) (cached h') []"
    by simp_all
  show "isEnabled (enable h')"
    by (simp add: isEnabled_def)
next
  assume "fst (restore_begin h got) \<noteq> Suspended"
  then show "snd (restore_begin h got) = h"
    by (auto simp: restore_begin_def split: get_item_result.splits if_splits)
next
  assume "cached h = []"
  then show "isEnabled (snd (restore h got))"
    by (auto simp: restore_def restore_try_def restore_begin_def isEnabled_def
        split: get_item_result.splits)
qed (simp_all add: suspended_iff suspended_unchanged)

theorem history_gate_spec_witness:
  "restore_begin new_history (GetItem [other_record]) = (Suspended, restoring_history)
   \<and> cached restoring_history \<noteq> []
   \<and> history_set restoring_history ''topicB'' example_request None = (Suspended, restoring_history)
   \<and> history_update restoring_history ''topicB'' (JsonRpcResult 9 JNull) = (Suspended, restoring_history)
   \<and> history_delete restoring_history ''topicB'' None = (Suspended, restoring_history)
   \<and> isEnabled (enable restoring_history)
   \<and> fst (history_set new_history ''topicA'' example_request None) \<noteq> Suspended"
proof -
  have rb: "restore_begin new_history (GetItem [other_record]) = (Suspended, restoring_history)"
    by (simp add: restore_begin_def new_history_def restoring_history_def other_record_def)
  have c: "cached restoring_history \<noteq> []" and c0: "cached new_history = []"
    by (simp_all add: restoring_history_def new_history_def)
  from history_gate_spec [of restoring_history "''topicB''" example_request None
      "JsonRpcResult 9 JNull" None "GetItem [other_record]"] c
  have s: "history_set restoring_history ''topicB'' example_request None = (Suspended, restoring_history)
   \<and> history_update restoring_history ''topicB'' (JsonRpcResult 9 JNull) = (Suspended, restoring_history)
   \<and> history_delete restoring_history ''topicB'' None = (Suspended, restoring_history)"
    by (simp add: prod_eq_iff)
  from history_gate_spec [of new_history "''topicA''" example_request None
      "JsonRpcResult 9 JNull" None "GetItem [other_record]"] rb c0
  have e: "isEnabled (enable restoring_history)
    \<and> fst (history_set new_history ''topicA'' example_request None) \<noteq> Suspended"
    by simp
  from rb c s e show ?thesis by simp
qed

text \<open>
  Claim C3 as stated fails on a history just constructed, whose \<open>restore\<close> still awaits the
  storage: \<open>set\<close> is not suspended and adds its record, and the snapshot read afterwards
  is then not restored.
\<close>

theorem history_gate_counterexample:
  "fst (history_set new_history ''topicA'' example_request None) = Returned ()
   \<and> records (snd (history_set new_history ''topicA'' example_request None)) = [(7, example_record)]
   \<and> records new_history = []
   \<and> restore (snd (history_set new_history ''topicA'' example_request None)) (GetItem [other_record])
       = (Returned (), snd (history_set new_history ''topicA'' example_request None))"
  unfolding example_history_set
  by (simp add: example_history_def new_history_def restore_def restore_try_def restore_begin_def)

text \<open>
  Claim C4, as amended. When \<open>restore\<close> finds a non-empty snapshot and a non-empty record
  map, \<open>RESTORE_WILL_OVERRIDE\<close> is thrown inside its \<open>try\<close> block and caught by its \<open>catch\<close>
  block: \<open>restore\<close> and \<open>init\<close> return normally, no error reaches the caller, and the state,
  the records included, is left as it was.
\<close>

theorem restore_override_spec:
  assumes "records h \<noteq> []" and "persisted \<noteq> []"
  shows "restore_try h (GetItem persisted) = (Threw RESTORE_WILL_OVERRIDE, h)
       \<and> restore h (GetItem persisted) = (Returned (), h)
       \<and> init h (GetItem persisted) = (Returned (), h)"
  using assms by (simp add: init_def restore_def restore_try_def restore_begin_def)

theorem restore_override_spec_witness:
  "records example_history \<noteq> [] \<and> [other_record] \<noteq> []
   \<and> restore_try example_history (GetItem [other_record]) = (Threw RESTORE_WILL_OVERRIDE, example_history)
   \<and> restore example_history (GetItem [other_record]) = (Returned (), example_history)
   \<and> init example_history (GetItem [other_record]) = (Returned (), example_history)"
proof -
  have a: "records example_history \<noteq> []" and b: "[other_record] \<noteq> []"
    by (simp_all add: example_history_def)
  from a b restore_override_spec [OF a b] show ?thesis by simp
qed

text \<open>
  Claim C4 as stated fails: with a record in memory and a non-empty snapshot, \<open>init\<close> and
  \<open>restore\<close> do not reject.
\<close>

theorem restore_override_counterexample:
  "records example_history \<noteq> []
   \<and> fst (init example_history (GetItem [other_record])) \<noteq> Threw RESTORE_WILL_OVERRIDE
   \<and> fst (restore example_history (GetItem [other_record])) \<noteq> Threw RESTORE_WILL_OVERRIDE"
  by (simp add: init_def restore_def restore_try_def restore_begin_def example_history_def)

text \<open>
  The invariant holds of the history the constructor leaves and is kept by every
  operation, so it holds of every state the class can reach.
\<close>

lemma history_set_inv:
  "history_inv h \<Longrightarrow> history_inv (snd (history_set h topic request chainId))"
  by (simp add: history_set_def Let_def history_inv_update_records)

lemma delete_step_inv: "history_inv h \<Longrightarrow> history_inv (delete_step topic i h r)"
  by (simp add: delete_step_def history_inv_delete_records)

lemma delete_loop_inv: "history_inv h \<Longrightarrow> history_inv (delete_loop topic i h rs)"
  by (induction rs arbitrary: h) (simp_all add: delete_step_inv)

lemma history_delete_inv:
  "history_inv h \<Longrightarrow> history_inv (snd (history_delete h topic i))"
  by (simp add: history_delete_def delete_loop_inv)

lemma fold_set_inv:
  "distinct (map fst rs) \<and> list_all (\<lambda>(k, r). rec_id r = k) rs
   \<Longrightarrow> distinct (map fst (fold (\<lambda>r rs. AList.update (rec_id r) r rs) ps rs))
     \<and> list_all (\<lambda>(k, r). rec_id r = k) (fold (\<lambda>r rs. AList.update (rec_id r) r rs) ps rs)"
proof (induction ps arbitrary: rs)
  case Nil
  then show ?case by simp
next
  case (Cons p ps)
  have "distinct (map fst (AList.update (rec_id p) p rs))"
    using Cons.prems by (simp add: distinct_update)
  moreover have "list_all (\<lambda>(k, r). rec_id r = k) (AList.update (rec_id p) p rs)"
    using Cons.prems set_update_subset [of "rec_id p" p rs] by (auto simp: list_all_iff)
  ultimately show ?case
    using Cons.IH by simp
qed

lemma restore_inv:
  "history_inv h \<Longrightarrow> history_inv (snd (restore h got))"
  using fold_set_inv [of "[]"]
  by (auto simp: restore_def restore_try_def restore_begin_def enable_def history_inv_def
      split: get_item_result.splits)

section \<open>Properties of the relay server\<close>

text \<open>
  Claim C2, as amended. The limit handed to the WebSocket server is 500 KiB, that is
  512000 bytes: an inbound frame of more than 512000 bytes is rejected and the socket is
  closed with code 1009, and a frame of at most 512000 bytes is not rejected for its size.
\<close>

theorem maxPayload_spec:
  "maxPayload genWsOptions = 512000
   \<and> receive_frame genWsOptions n = (if 512000 < n then ClosedWith 1009 else Accepted)"
  by (simp add: genWsOptions_def receive_frame_def)

text \<open>
  Claim C2 as stated fails for a frame of 520000 bytes: it is within 512 KiB (524288
  bytes) and is rejected with code 1009.
\<close>

theorem maxPayload_counterexample:
  "(520000 :: nat) \<le> 512 * 1024 \<and> receive_frame genWsOptions 520000 = ClosedWith 1009"
  by (simp add: genWsOptions_def receive_frame_def)

text \<open>
  Claim C10. For an id that is not in the socket map, \<open>send\<close> returns false and leaves the
  state as it is: nothing is transmitted and no branch throws. For an id in the map it
  returns true, the map is unchanged, and exactly one message is transmitted, on that
  socket: the string itself for a string, its \<open>JSON.stringify\<close> for any other payload.
\<close>

theorem ws_send_spec:
  "(map_of (sockets st) socketId = None \<longrightarrow> ws_send env st socketId msg = (False, st))
   \<and> (map_of (sockets st) socketId \<noteq> None \<longrightarrow>
        fst (ws_send env st socketId msg) = True
      \<and> sockets (snd (ws_send env st socketId msg)) = sockets st
      \<and> trace (snd (ws_send env st socketId msg)) =
          trace st @ [SocketSend socketId
                        (case msg of JStr s \<Rightarrow> s | _ \<Rightarrow> json_stringify env msg)])"
  by (cases msg) (auto simp: ws_send_def getSocket_def safeJsonStringify_def)

text \<open>The theorem of claim C10 at the example service.\<close>

theorem ws_send_spec_witness:
  "map_of (sockets example_ws) ''sock9'' = None
   \<and> ws_send example_env example_ws ''sock9'' (JStr ''hello'') = (False, example_ws)
   \<and> map_of (sockets example_ws) ''sock1'' \<noteq> None
   \<and> fst (ws_send example_env example_ws ''sock1'' (JStr ''hello'')) = True
   \<and> trace (snd (ws_send example_env example_ws ''sock1'' (JStr ''hello''))) =
       [SocketSend ''sock1'' ''hello'']
   \<and> trace (snd (ws_send example_env example_ws ''sock1'' (JObj []))) =
       [SocketSend ''sock1'' ''{}'']"
proof -
  have a: "map_of (sockets example_ws) ''sock9'' = None"
    and b: "map_of (sockets example_ws) ''sock1'' \<noteq> None"
    and t: "trace example_ws = []"
    by (simp_all add: example_ws_def)
  from ws_send_spec [of example_ws "''sock9''" example_env "JStr ''hello''"] a
  have c: "ws_send example_env example_ws ''sock9'' (JStr ''hello'') = (False, example_ws)"
    by simp
  from ws_send_spec [of example_ws "''sock1''" example_env "JStr ''hello''"] b t
  have d: "fst (ws_send example_env example_ws ''sock1'' (JStr ''hello'')) = True
   \<and> trace (snd (ws_send example_env example_ws ''sock1'' (JStr ''hello''))) =
       [SocketSend ''sock1'' ''hello'']"
    by simp
  from ws_send_spec [of example_ws "''sock1''" example_env "JObj []"] b t
  have e: "trace (snd (ws_send example_env example_ws ''sock1'' (JObj []))) =
       [SocketSend ''sock1'' ''{}'']"
    by (simp add: example_env_def)
  from a b c d e show ?thesis by simp
qed

lemma ws_send_present:
  "map_of (sockets st) socketId = Some socket \<Longrightarrow>
   snd (ws_send env st socketId (JStr s)) = st\<lparr>trace := trace st @ [SocketSend socketId s]\<rparr>"
  by (simp add: ws_send_def getSocket_def)

lemma not_json_object_literals:
  "\<not> may_be_json_object ''Missing or invalid socket data''"
  "\<not> may_be_json_object ''Socket message is invalid''"
  by (simp_all add: may_be_json_object_def is_whitespace_def)

text \<open>
  Claim C8, as amended. For a frame that is empty, is white space only, or fails to parse,
  arriving on a socket of the live set, the handler transmits one plain text to that
  socket (\<open>Missing or invalid socket data\<close> for the first two, \<open>Socket message is invalid\<close>
  for the third) and does nothing else: the socket map is unchanged, so the socket stays
  in the live set, and nothing is closed or terminated. Neither text is a JSON object, so
  neither is a JSON-RPC error response.
\<close>

theorem on_message_invalid_spec:
  assumes "map_of (sockets st) socketId = Some socket"
    and "message = [] \<or> trim message = [] \<or> json_parse env message = None"
  shows "sockets (on_message env st socketId message) = sockets st
       \<and> trace (on_message env st socketId message) =
           trace st @ [SocketSend socketId
                         (if trim message = [] then ''Missing or invalid socket data''
                          else ''Socket message is invalid'')]
       \<and> \<not> may_be_json_object ''Missing or invalid socket data''
       \<and> \<not> may_be_json_object ''Socket message is invalid''"
proof -
  have e: "message = [] \<Longrightarrow> trim message = []"
    by (simp add: trim_def)
  show ?thesis
  proof (cases "trim message = []")
    case True
    then show ?thesis
      using assms(1) by (simp add: on_message_def ws_send_present not_json_object_literals)
  next
    case False
    with assms(2) e have "json_parse env message = None" and "message \<noteq> []"
      by auto
    with False show ?thesis
      using assms(1)
      by (simp add: on_message_def safeJsonParse_def ws_send_present not_json_object_literals)
  qed
qed

text \<open>The theorem of claim C8 at the example service.\<close>

theorem on_message_invalid_spec_witness:
  "map_of (sockets example_ws) ''sock1'' = Some \<lparr>isAlive = Some True\<rparr>
   \<and> json_parse example_env ''{oops'' = None
   \<and> sockets (on_message example_env example_ws ''sock1'' ''{oops'') = sockets example_ws
   \<and> trace (on_message example_env example_ws ''sock1'' ''{oops'') =
       [SocketSend ''sock1'' ''Socket message is invalid'']
   \<and> trace (on_message example_env example_ws ''sock1'' ''  '') =
       [SocketSend ''sock1'' ''Missing or invalid socket data'']"
proof -
  have a: "map_of (sockets example_ws) ''sock1'' = Some \<lparr>isAlive = Some True\<rparr>"
    and t: "trace example_ws = []"
    by (simp_all add: example_ws_def)
  have b: "json_parse example_env ''{oops'' = None"
    by (simp add: example_env_def)
  have c: "trim ''  '' = []" and d: "trim ''{oops'' \<noteq> []"
    by (simp_all add: trim_def is_whitespace_def)
  from on_message_invalid_spec [OF a, of "''{oops''" example_env] b d t
  have e: "sockets (on_message example_env example_ws ''sock1'' ''{oops'') = sockets example_ws
   \<and> trace (on_message example_env example_ws ''sock1'' ''{oops'') =
       [SocketSend ''sock1'' ''Socket message is invalid'']"
    by simp
  from on_message_invalid_spec [OF a, of "''  ''" example_env] c t
  have f: "trace (on_message example_env example_ws ''sock1'' ''  '') =
       [SocketSend ''sock1'' ''Missing or invalid socket data'']"
    by simp
  from a b e f show ?thesis by simp
qed

text \<open>
  Claim C8 as stated fails: the reply to an empty frame, and to a frame that does not
  parse, is a plain text that is not a JSON object, hence no JSON-RPC error response.
\<close>

theorem on_message_invalid_counterexample:
  "trace (on_message example_env example_ws ''sock1'' []) =
     [SocketSend ''sock1'' ''Missing or invalid socket data'']
   \<and> \<not> may_be_json_object ''Missing or invalid socket data''
   \<and> trace (on_message example_env example_ws ''sock1'' ''{oops'') =
     [SocketSend ''sock1'' ''Socket message is invalid'']
   \<and> \<not> may_be_json_object ''Socket message is invalid''"
  by (simp add: on_message_def ws_send_def getSocket_def example_ws_def example_env_def
      safeJsonParse_def trim_def is_whitespace_def may_be_json_object_def)

lemma map_of_mid: "k \<notin> fst ` set xs \<Longrightarrow> map_of (xs @ (k, v) # ys) k = Some v"
  by (induction xs) auto

lemma delete_mid:
  "k \<notin> fst ` set xs \<Longrightarrow> k \<notin> fst ` set ys \<Longrightarrow> AList.delete k (xs @ (k, v) # ys) = xs @ ys"
  by (induction xs) auto

lemma update_mid:
  "k \<notin> fst ` set xs \<Longrightarrow> AList.update k v' (xs @ (k, v) # ys) = xs @ (k, v') # ys"
  by (induction xs) auto

lemma beat_loop_split:
  assumes "distinct (map fst (pre @ rest))" and "sockets st = pre @ rest"
  shows "sockets (beat_loop st (map fst rest)) =
           pre @ map (\<lambda>(k, s). (k, s\<lparr>isAlive := Some False\<rparr>))
                   (filter (\<lambda>(k, s). isAlive s \<noteq> Some False) rest)
       \<and> trace (beat_loop st (map fst rest)) =
           trace st @ concat (map (\<lambda>(k, s). if isAlive s = Some False
                                              then [SocketTerminate k, EmitClose k]
                                              else [SocketPing k]) rest)"
  using assms
proof (induction rest arbitrary: st pre)
  case Nil
  then show ?case by simp
next
  case (Cons p rest)
  obtain k s where p: "p = (k, s)" by (cases p)
  from Cons.prems(1) p have k1: "k \<notin> fst ` set pre" and k2: "k \<notin> fst ` set rest"
    by auto
  have look: "map_of (sockets st) k = Some s"
    unfolding Cons.prems(2) p using k1 by (rule map_of_mid)
  show ?case
  proof (cases "isAlive s = Some False")
    case True
    let ?st = "beat_step st k"
    have s1: "sockets ?st = pre @ rest"
      using look True Cons.prems(2) p k1 k2 by (simp add: beat_step_def delete_mid)
    have t1: "trace ?st = trace st @ [SocketTerminate k, EmitClose k]"
      using look True by (simp add: beat_step_def)
    have d1: "distinct (map fst (pre @ rest))"
      using Cons.prems(1) by simp
    from Cons.IH [OF d1 s1] p True t1 show ?thesis by simp
  next
    case False
    let ?st = "beat_step st k"
    let ?pre = "pre @ [(k, s\<lparr>isAlive := Some False\<rparr>)]"
    have s1: "sockets ?st = ?pre @ rest"
      using look False Cons.prems(2) p k1 by (simp add: beat_step_def update_mid)
    have t1: "trace ?st = trace st @ [SocketPing k]"
      using look False by (simp add: beat_step_def)
    have d1: "distinct (map fst (?pre @ rest))"
      using Cons.prems(1) p by simp
    from Cons.IH [OF d1 s1] p False t1 show ?thesis by simp
  qed
qed

lemma clearInactiveSockets_sockets:
  assumes "distinct (map fst (sockets st))"
  shows "sockets (clearInactiveSockets st) =
           map (\<lambda>(k, s). (k, s\<lparr>isAlive := Some False\<rparr>))
             (filter (\<lambda>(k, s). isAlive s \<noteq> Some False) (sockets st))"
  using beat_loop_split [of "[]" "sockets st" st] assms
  by (simp add: clearInactiveSockets_def)

lemma clearInactiveSockets_trace:
  assumes "distinct (map fst (sockets st))"
  shows "trace (clearInactiveSockets st) =
           trace st @ concat (map (\<lambda>(k, s). if isAlive s = Some False
                                              then [SocketTerminate k, EmitClose k]
                                              else [SocketPing k]) (sockets st))"
  using beat_loop_split [of "[]" "sockets st" st] assms
  by (simp add: clearInactiveSockets_def)

lemma map_of_map_filter:
  assumes "distinct (map fst xs)"
  shows "map_of (map (\<lambda>(k, s). (k, f s)) (filter (\<lambda>(k, s). P s) xs)) k =
           (case map_of xs k of None \<Rightarrow> None | Some s \<Rightarrow> if P s then Some (f s) else None)"
  using assms
proof (induction xs)
  case Nil
  then show ?case by simp
next
  case (Cons p xs)
  obtain k' s where p: "p = (k', s)" by (cases p)
  from Cons.prems p have fresh: "k' \<notin> fst ` set xs" and d: "distinct (map fst xs)"
    by auto
  have none: "map_of (map (\<lambda>(k, s). (k, f s)) (filter (\<lambda>(k, s). P s) xs)) k' = None"
    using fresh by (force simp: map_of_eq_None_iff)
  show ?case
    using Cons.IH [OF d] p none by (auto split: option.splits)
qed

lemma clearInactiveSockets_lookup:
  assumes "distinct (map fst (sockets st))"
  shows "map_of (sockets (clearInactiveSockets st)) k =
           (case map_of (sockets st) k of
              None \<Rightarrow> None
            | Some s \<Rightarrow> if isAlive s \<noteq> Some False then Some (s\<lparr>isAlive := Some False\<rparr>) else None)"
  unfolding clearInactiveSockets_sockets [OF assms]
  using assms by (rule map_of_map_filter)

lemma map_fst_map_values: "map fst (map (\<lambda>(k, s). (k, f s)) xs) = map fst xs"
  by (induction xs) auto

lemma clearInactiveSockets_distinct:
  assumes "distinct (map fst (sockets st))"
  shows "distinct (map fst (sockets (clearInactiveSockets st)))"
  unfolding clearInactiveSockets_sockets [OF assms] map_fst_map_values
  using assms by (rule distinct_map_filter)

lemma clearInactiveSockets_terminates:
  assumes "distinct (map fst (sockets st))"
  shows "\<exists>new. trace (clearInactiveSockets st) = trace st @ new
           \<and> (SocketTerminate k \<in> set new \<longleftrightarrow> (\<exists>s. map_of (sockets st) k = Some s \<and> isAlive s = Some False))
           \<and> (SocketPing k \<in> set new \<longleftrightarrow> (\<exists>s. map_of (sockets st) k = Some s \<and> isAlive s \<noteq> Some False))"
proof -
  let ?new = "concat (map (\<lambda>(k, s). if isAlive s = Some False
                                      then [SocketTerminate k, EmitClose k]
                                      else [SocketPing k]) (sockets st))"
  have "SocketTerminate k \<in> set ?new \<longleftrightarrow> (\<exists>s. (k, s) \<in> set (sockets st) \<and> isAlive s = Some False)"
    by (auto split: if_splits)
  moreover have "SocketPing k \<in> set ?new \<longleftrightarrow> (\<exists>s. (k, s) \<in> set (sockets st) \<and> isAlive s \<noteq> Some False)"
    by (auto split: if_splits)
  moreover have "\<And>s. (k, s) \<in> set (sockets st) \<longleftrightarrow> map_of (sockets st) k = Some s"
    using assms by (simp add: map_of_eq_Some_iff)
  ultimately show ?thesis
    using clearInactiveSockets_trace [OF assms] by auto
qed

lemma ws_send_sockets [simp]: "sockets (snd (ws_send env st i msg)) = sockets st"
  by (simp add: ws_send_def Let_def split: option.splits)

lemma ws_send_trace:
  "\<exists>new. trace (snd (ws_send env st i msg)) = trace st @ new \<and> SocketTerminate k \<notin> set new"
  by (simp add: ws_send_def Let_def split: option.splits)

lemma on_message_sockets [simp]: "sockets (on_message env st i m) = sockets st"
  by (simp add: on_message_def Let_def)

lemma on_message_trace:
  "\<exists>new. trace (on_message env st i m) = trace st @ new \<and> SocketTerminate k \<notin> set new"
  by (simp add: on_message_def Let_def ws_send_trace)

lemma on_pong_lookup:
  "map_of (sockets (on_pong st i)) k =
     (if k = i then map_option (\<lambda>s. s\<lparr>isAlive := Some True\<rparr>) (map_of (sockets st) k)
      else map_of (sockets st) k)"
  by (simp add: on_pong_def map_of_map_entry split: option.splits)

lemma answered_step:
  assumes d: "distinct (map fst (sockets st))"
    and a: "answers_pings sid ok (input # inputs)"
    and inv: "\<forall>s. map_of (sockets st) sid = Some s \<longrightarrow> ok \<longrightarrow> isAlive s \<noteq> Some False"
  shows "\<exists>ok'. distinct (map fst (sockets (ws_step env st input)))
           \<and> answers_pings sid ok' inputs
           \<and> (\<forall>s. map_of (sockets (ws_step env st input)) sid = Some s \<longrightarrow> ok' \<longrightarrow> isAlive s \<noteq> Some False)
           \<and> (\<exists>new. trace (ws_step env st input) = trace st @ new \<and> SocketTerminate sid \<notin> set new)
           \<and> (sid \<in> fst ` set (sockets st) \<longrightarrow> input \<noteq> Close sid
                \<longrightarrow> sid \<in> fst ` set (sockets (ws_step env st input)))"
proof (cases input)
  case Beat
  from a Beat have ok: ok and rest: "answers_pings sid False inputs"
    by simp_all
  have alive: "\<And>s. map_of (sockets st) sid = Some s \<Longrightarrow> isAlive s \<noteq> Some False"
    using inv ok by simp
  have "\<exists>new. trace (clearInactiveSockets st) = trace st @ new \<and> SocketTerminate sid \<notin> set new"
    using clearInactiveSockets_terminates [OF d, of sid] alive by auto
  moreover have "sid \<in> fst ` set (sockets st) \<longrightarrow> sid \<in> fst ` set (sockets (clearInactiveSockets st))"
  proof
    assume "sid \<in> fst ` set (sockets st)"
    then obtain s where s: "map_of (sockets st) sid = Some s"
      by (metis map_of_eq_None_iff not_Some_eq)
    with alive have "map_of (sockets (clearInactiveSockets st)) sid = Some (s\<lparr>isAlive := Some False\<rparr>)"
      by (simp add: clearInactiveSockets_lookup [OF d])
    then show "sid \<in> fst ` set (sockets (clearInactiveSockets st))"
      by (metis map_of_eq_None_iff option.distinct(1))
  qed
  ultimately show ?thesis
    using Beat rest clearInactiveSockets_distinct [OF d] by (intro exI [of _ False]) simp
next
  case (Pong i)
  from a Pong have rest: "answers_pings sid (ok \<or> i = sid) inputs"
    by simp
  have "distinct (map fst (sockets (on_pong st i)))"
    using d by (simp add: on_pong_def distinct_map_entry)
  moreover have "\<forall>s. map_of (sockets (on_pong st i)) sid = Some s \<longrightarrow> (ok \<or> i = sid)
      \<longrightarrow> isAlive s \<noteq> Some False"
    using inv by (auto simp: on_pong_lookup)
  moreover have "trace (on_pong st i) = trace st @ []"
    by (simp add: on_pong_def)
  moreover have "fst ` set (sockets (on_pong st i)) = fst ` set (sockets st)"
    by (simp add: on_pong_def dom_map_entry)
  ultimately show ?thesis
    using Pong rest by (intro exI [of _ "ok \<or> i = sid"]) auto
next
  case (Message i m)
  from a Message have rest: "answers_pings sid ok inputs"
    by simp
  show ?thesis
    using Message rest d inv on_message_trace [of env st i m sid]
    by (intro exI [of _ ok]) simp
next
  case (Close i)
  from a Close have rest: "answers_pings sid ok inputs"
    by simp
  have "distinct (map fst (sockets (on_close st i)))"
    using d by (simp add: on_close_def distinct_delete)
  moreover have "\<forall>s. map_of (sockets (on_close st i)) sid = Some s \<longrightarrow> ok \<longrightarrow> isAlive s \<noteq> Some False"
    using inv by (simp add: on_close_def delete_conv')
  moreover have "trace (on_close st i) = trace st @ [EmitClose i]"
    by (simp add: on_close_def)
  moreover have "i \<noteq> sid \<Longrightarrow> sid \<in> fst ` set (sockets st) \<Longrightarrow> sid \<in> fst ` set (sockets (on_close st i))"
    by (force simp: on_close_def AList.delete_eq)
  ultimately show ?thesis
    using Close rest by (intro exI [of _ ok]) auto
qed

lemma answered_run:
  assumes "distinct (map fst (sockets st))"
    and "answers_pings sid ok inputs"
    and "\<forall>s. map_of (sockets st) sid = Some s \<longrightarrow> ok \<longrightarrow> isAlive s \<noteq> Some False"
  shows "(\<exists>new. trace (ws_run env st inputs) = trace st @ new \<and> SocketTerminate sid \<notin> set new)
       \<and> (sid \<in> fst ` set (sockets st) \<longrightarrow> Close sid \<notin> set inputs
            \<longrightarrow> sid \<in> fst ` set (sockets (ws_run env st inputs)))"
  using assms
proof (induction inputs arbitrary: st ok)
  case Nil
  then show ?case by simp
next
  case (Cons input inputs)
  let ?st = "ws_step env st input"
  from answered_step [OF Cons.prems, of env]
  obtain ok' where d': "distinct (map fst (sockets ?st))"
    and a': "answers_pings sid ok' inputs"
    and inv': "\<forall>s. map_of (sockets ?st) sid = Some s \<longrightarrow> ok' \<longrightarrow> isAlive s \<noteq> Some False"
    and t': "\<exists>new. trace ?st = trace st @ new \<and> SocketTerminate sid \<notin> set new"
    and m': "sid \<in> fst ` set (sockets st) \<longrightarrow> input \<noteq> Close sid \<longrightarrow> sid \<in> fst ` set (sockets ?st)"
    by blast
  from Cons.IH [OF d' a' inv']
  have t'': "\<exists>new. trace (ws_run env ?st inputs) = trace ?st @ new \<and> SocketTerminate sid \<notin> set new"
    and m'': "sid \<in> fst ` set (sockets ?st) \<longrightarrow> Close sid \<notin> set inputs
            \<longrightarrow> sid \<in> fst ` set (sockets (ws_run env ?st inputs))"
    by simp_all
  from t' t'' obtain n1 n2 where "trace (ws_run env ?st inputs) = trace st @ (n1 @ n2)"
    and "SocketTerminate sid \<notin> set (n1 @ n2)"
    by auto
  then have "\<exists>new. trace (ws_run env st (input # inputs)) = trace st @ new \<and> SocketTerminate sid \<notin> set new"
    by (intro exI [of _ "n1 @ n2"]) simp
  moreover from m' m'' have "sid \<in> fst ` set (sockets st) \<longrightarrow> Close sid \<notin> set (input # inputs)
            \<longrightarrow> sid \<in> fst ` set (sockets (ws_run env st (input # inputs)))"
    by auto
  ultimately show ?case by simp
qed

text \<open>
  Claim C9. At a beat, every socket of the live set whose \<open>isAlive\<close> is false is removed
  from the set and terminated (and the close event is emitted); every other socket stays,
  with \<open>isAlive\<close> set to false, and is pinged; nothing else happens. A pong sets \<open>isAlive\<close>
  of its socket to true. Hence, over any sequence of beats, pongs, frames and closes in
  which a socket answers every ping, no beat terminates that socket, and it stays in the
  live set unless its own close event comes.
\<close>

theorem clearInactiveSockets_spec:
  assumes "distinct (map fst (sockets st))"
  shows "(\<forall>socketId s. map_of (sockets st) socketId = Some s \<longrightarrow>
            map_of (sockets (clearInactiveSockets st)) socketId =
              (if isAlive s = Some False then None else Some (s\<lparr>isAlive := Some False\<rparr>)))
       \<and> (\<forall>socketId. map_of (sockets st) socketId = None \<longrightarrow>
            map_of (sockets (clearInactiveSockets st)) socketId = None)
       \<and> trace (clearInactiveSockets st) =
           trace st @ concat (map (\<lambda>(socketId, s). if isAlive s = Some False
                                                    then [SocketTerminate socketId, EmitClose socketId]
                                                    else [SocketPing socketId]) (sockets st))
       \<and> (\<forall>socketId s. map_of (sockets st) socketId = Some s \<longrightarrow>
            map_of (sockets (on_pong st socketId)) socketId = Some (s\<lparr>isAlive := Some True\<rparr>))
       \<and> (\<forall>socketId s inputs.
            map_of (sockets st) socketId = Some s
            \<and> answers_pings socketId (isAlive s \<noteq> Some False) inputs \<longrightarrow>
              (\<exists>new. trace (ws_run env st inputs) = trace st @ new
                     \<and> SocketTerminate socketId \<notin> set new)
            \<and> (Close socketId \<notin> set inputs \<longrightarrow>
                 socketId \<in> fst ` set (sockets (ws_run env st inputs))))"
proof (intro conjI allI impI)
  fix socketId s
  assume "map_of (sockets st) socketId = Some s"
  then show "map_of (sockets (clearInactiveSockets st)) socketId =
      (if isAlive s = Some False then None else Some (s\<lparr>isAlive := Some False\<rparr>))"
    by (simp add: clearInactiveSockets_lookup [OF assms])
next
  fix socketId
  assume "map_of (sockets st) socketId = None"
  then show "map_of (sockets (clearInactiveSockets st)) socketId = None"
    by (simp add: clearInactiveSockets_lookup [OF assms])
next
  show "trace (clearInactiveSockets st) =
      trace st @ concat (map (\<lambda>(socketId, s). if isAlive s = Some False
                                               then [SocketTerminate socketId, EmitClose socketId]
                                               else [SocketPing socketId]) (sockets st))"
    using assms by (rule clearInactiveSockets_trace)
next
  fix socketId s
  assume "map_of (sockets st) socketId = Some s"
  then show "map_of (sockets (on_pong st socketId)) socketId = Some (s\<lparr>isAlive := Some True\<rparr>)"
    by (simp add: on_pong_lookup)
next
  fix socketId s inputs
  assume a: "map_of (sockets st) socketId = Some s
             \<and> answers_pings socketId (isAlive s \<noteq> Some False) inputs"
  then have inv: "\<forall>s'. map_of (sockets st) socketId = Some s' \<longrightarrow> isAlive s \<noteq> Some False
      \<longrightarrow> isAlive s' \<noteq> Some False"
    by simp
  from a have dom: "socketId \<in> fst ` set (sockets st)"
    by (metis map_of_eq_None_iff option.distinct(1))
  from a answered_run [OF assms _ inv, of inputs env]
  show "\<exists>new. trace (ws_run env st inputs) = trace st @ new \<and> SocketTerminate socketId \<notin> set new"
    by simp
  assume "Close socketId \<notin> set inputs"
  with a dom answered_run [OF assms _ inv, of inputs env]
  show "socketId \<in> fst ` set (sockets (ws_run env st inputs))"
    by simp
qed

text \<open>The theorem of claim C9 at the example service.\<close>

theorem clearInactiveSockets_spec_witness:
  "distinct (map fst (sockets example_ws))
   \<and> map_of (sockets (clearInactiveSockets example_ws)) ''sock1'' = Some \<lparr>isAlive = Some False\<rparr>
   \<and> map_of (sockets (clearInactiveSockets example_ws)) ''sock2'' = None
   \<and> trace (clearInactiveSockets example_ws) =
       [SocketPing ''sock1'', SocketTerminate ''sock2'', EmitClose ''sock2'']
   \<and> map_of (sockets (on_pong example_ws ''sock2'')) ''sock2'' = Some \<lparr>isAlive = Some True\<rparr>
   \<and> answers_pings ''sock1'' True [Beat, Pong ''sock1'', Beat, Message ''sock1'' [], Pong ''sock1'', Beat]
   \<and> ''sock1'' \<in> fst ` set (sockets (ws_run example_env example_ws
         [Beat, Pong ''sock1'', Beat, Message ''sock1'' [], Pong ''sock1'', Beat]))"
proof -
  have d: "distinct (map fst (sockets example_ws))"
    by (simp add: example_ws_def)
  have m1: "map_of (sockets example_ws) ''sock1'' = Some \<lparr>isAlive = Some True\<rparr>"
    and m2: "map_of (sockets example_ws) ''sock2'' = Some \<lparr>isAlive = Some False\<rparr>"
    and t: "trace example_ws = []"
    by (simp_all add: example_ws_def)
  have a: "answers_pings ''sock1'' True
      [Beat, Pong ''sock1'', Beat, Message ''sock1'' [], Pong ''sock1'', Beat]"
    and nc: "Close ''sock1'' \<notin> set [Beat, Pong ''sock1'', Beat, Message ''sock1'' [], Pong ''sock1'', Beat]"
    by simp_all
  note spec = clearInactiveSockets_spec [OF d, of example_env]
  from spec m1 have b1: "map_of (sockets (clearInactiveSockets example_ws)) ''sock1'' =
      Some \<lparr>isAlive = Some False\<rparr>"
    by simp
  from spec m2 have b2: "map_of (sockets (clearInactiveSockets example_ws)) ''sock2'' = None"
    by simp
  from spec t have b3: "trace (clearInactiveSockets example_ws) =
       [SocketPing ''sock1'', SocketTerminate ''sock2'', EmitClose ''sock2'']"
    by (simp add: example_ws_def)
  from spec m2 have b4: "map_of (sockets (on_pong example_ws ''sock2'')) ''sock2'' =
      Some \<lparr>isAlive = Some True\<rparr>"
    by simp
  from spec have "map_of (sockets example_ws) ''sock1'' = Some \<lparr>isAlive = Some True\<rparr>
      \<and> answers_pings ''sock1'' (isAlive \<lparr>isAlive = Some True\<rparr> \<noteq> Some False)
           [Beat, Pong ''sock1'', Beat, Message ''sock1'' [], Pong ''sock1'', Beat]
      \<longrightarrow> (Close ''sock1'' \<notin> set [Beat, Pong ''sock1'', Beat, Message ''sock1'' [], Pong ''sock1'', Beat]
           \<longrightarrow> ''sock1'' \<in> fst ` set (sockets (ws_run example_env example_ws
                 [Beat, Pong ''sock1'', Beat, Message ''sock1'' [], Pong ''sock1'', Beat])))"
    by blast
  with m1 have b5: "''sock1'' \<in> fst ` set (sockets (ws_run example_env example_ws
         [Beat, Pong ''sock1'', Beat, Message ''sock1'' [], Pong ''sock1'', Beat]))"
    by simp
  from d b1 b2 b3 b4 a b5 show ?thesis by simp
qed

end
